theory Spec2Isabelle
  imports Main "HOL-Library.Sublist"
begin

section \<open>The one-dimensional automaton of back-to-school.py\<close>

text \<open>
  The program reads starting rows, derives row after row with a fixed rule on five
  neighbouring squares, and prints the name of the pattern the rows fall into.
  Rows are Python strings: a blank square is the space character, a filled square
  is \<open>#\<close>. Indices are Python integers (\<open>int\<close>), since the code computes with
  negative values and relies on what slicing and indexing do with them.
\<close>

subsection \<open>Constants\<close>

definition EMPTY :: char where
  "EMPTY = CHR ''.''"

definition FILLED :: char where
  "FILLED = CHR ''#''"

definition MAX_ROUNDS :: nat where
  "MAX_ROUNDS = 100"

subsection \<open>Python's string and list primitives\<close>

datatype error = IndexError | SystemExit int

text \<open>
  The characters that \<open>strip\<close>, \<open>lstrip\<close> and \<open>rstrip\<close> remove when called
  without an argument, among the code points a \<open>char\<close> can hold.
\<close>

definition isspace :: "char \<Rightarrow> bool" where
  "isspace c = (c \<in> set [CHR 0x09, CHR 0x0A, CHR 0x0B, CHR 0x0C, CHR 0x0D,
                          CHR 0x1C, CHR 0x1D, CHR 0x1E, CHR 0x1F, CHR 0x20,
                          CHR 0x85, CHR 0xA0])"

definition lstrip :: "string \<Rightarrow> string" where
  "lstrip s = dropWhile isspace s"

definition rstrip :: "string \<Rightarrow> string" where
  "rstrip s = rev (dropWhile isspace (rev s))"

definition strip :: "string \<Rightarrow> string" where
  "strip s = lstrip (rstrip s)"

text \<open>\<open>s * k\<close>: a count below one gives the empty string.\<close>

definition str_mul :: "string \<Rightarrow> int \<Rightarrow> string" where
  "str_mul s k = concat (replicate (nat k) s)"

text \<open>
  A slice bound: a negative bound counts from the end, and every bound is clipped
  to the sequence.
\<close>

definition slice_bound :: "nat \<Rightarrow> int \<Rightarrow> nat" where
  "slice_bound n k = (if k < 0 then nat (max (k + int n) 0) else min (nat k) n)"

text \<open>\<open>xs[a:b]\<close>\<close>

definition py_slice :: "'a list \<Rightarrow> int \<Rightarrow> int \<Rightarrow> 'a list" where
  "py_slice xs a b = drop (slice_bound (length xs) a) (take (slice_bound (length xs) b) xs)"

text \<open>\<open>xs[:b]\<close>\<close>

definition py_slice_to :: "'a list \<Rightarrow> int \<Rightarrow> 'a list" where
  "py_slice_to xs b = take (slice_bound (length xs) b) xs"

text \<open>\<open>xs[i]\<close>: a negative index counts from the end; out of range raises.\<close>

definition py_get :: "'a list \<Rightarrow> int \<Rightarrow> error + 'a" where
  "py_get xs i =
     (let n = int (length xs); j = (if i < 0 then i + n else i)
      in if 0 \<le> j \<and> j < n then Inr (xs ! nat j) else Inl IndexError)"

text \<open>\<open>xs[i] = v\<close>\<close>

definition py_set :: "'a list \<Rightarrow> int \<Rightarrow> 'a \<Rightarrow> error + 'a list" where
  "py_set xs i v =
     (let n = int (length xs); j = (if i < 0 then i + n else i)
      in if 0 \<le> j \<and> j < n then Inr (xs[nat j := v]) else Inl IndexError)"

subsection \<open>The helpers of the module\<close>

definition getFirstFilledIdx :: "string \<Rightarrow> int" where
  "getFirstFilledIdx line = int (length line) - int (length (lstrip line))"

definition getLastFilledIdx :: "string \<Rightarrow> int" where
  "getLastFilledIdx line = int (length (rstrip line)) - 1"

definition getBlock :: "int \<Rightarrow> string \<Rightarrow> string" where
  "getBlock pos line = py_slice line (pos - 2) (pos + 1 + 2)"

definition padTrimLine :: "string \<Rightarrow> string" where
  "padTrimLine line =
     (let firstFilledIdx = getFirstFilledIdx line;
          lfill = 3 - firstFilledIdx;
          lastFilledIdx = getLastFilledIdx line;
          rfill = 3 - (int (length line) - lastFilledIdx - 1);
          line' = str_mul '' '' lfill @ line @ str_mul '' '' rfill
      in if rfill < 0 then py_slice_to line' rfill else line')"

subsection \<open>GameState\<close>

record GameState =
  lines :: "string list"

definition init_GameState :: "string \<Rightarrow> GameState" where
  "init_GameState firstline = \<lparr>lines = [] @ [firstline]\<rparr>"

definition linesFilled :: "GameState \<Rightarrow> nat" where
  "linesFilled g = length (lines g)"

text \<open>The indices the loop of \<open>fillNextLine\<close> visits: \<open>range(startIdx, stopIdx+1)\<close>.\<close>

definition scanRange :: "string \<Rightarrow> int list" where
  "scanRange lineAbove =
     (let startIdx = getFirstFilledIdx lineAbove - 1;
          stopIdx = getLastFilledIdx lineAbove + 1
      in [startIdx..stopIdx + 1 - 1])"

text \<open>
  The body of the loop, for the indices still to visit. The block is sliced first
  (a slice never raises), then the square above is read, then the new square is
  written when its rule says so.
\<close>

fun fillLoop :: "string \<Rightarrow> int list \<Rightarrow> string \<Rightarrow> error + string" where
  "fillLoop lineAbove [] currLineArr = Inr currLineArr"
| "fillLoop lineAbove (i # rest) currLineArr =
     (let block = getBlock i lineAbove;
          filled = count_list block FILLED
      in case py_get lineAbove i of
           Inl e \<Rightarrow> Inl e
         | Inr sq \<Rightarrow>
             if sq = CHR '' '' then
               (if filled = 2 \<or> filled = 3 then
                  (case py_set currLineArr i FILLED of
                     Inl e \<Rightarrow> Inl e
                   | Inr arr \<Rightarrow> fillLoop lineAbove rest arr)
                else fillLoop lineAbove rest currLineArr)
             else
               (if filled = 3 \<or> filled = 5 then
                  (case py_set currLineArr i FILLED of
                     Inl e \<Rightarrow> Inl e
                   | Inr arr \<Rightarrow> fillLoop lineAbove rest arr)
                else fillLoop lineAbove rest currLineArr))"

text \<open>The row \<open>fillNextLine\<close> builds from the row above, before \<open>padTrimLine\<close>.\<close>

definition buildLine :: "string \<Rightarrow> error + string" where
  "buildLine lineAbove =
     fillLoop lineAbove (scanRange lineAbove) (replicate (length lineAbove) CHR '' '')"

definition fillNextLine :: "GameState \<Rightarrow> error + GameState" where
  "fillNextLine g =
     (case py_get (lines g) (- 1) of
        Inl e \<Rightarrow> Inl e
      | Inr lineAbove \<Rightarrow>
          (case buildLine lineAbove of
             Inl e \<Rightarrow> Inl e
           | Inr newline \<Rightarrow> Inr (g\<lparr>lines := lines g @ [padTrimLine newline]\<rparr>)))"

text \<open>
  The loop of \<open>printPattern\<close> over the rows before the last one. The result is
  the text printed, if a check succeeds for some row.
\<close>

fun scanLines :: "string \<Rightarrow> string \<Rightarrow> string list \<Rightarrow> string option" where
  "scanLines lastline lastlineStripped [] = None"
| "scanLines lastline lastlineStripped (line # rest) =
     (if lastlineStripped = '''' then Some ''vanishing''
      else if lastline = line then Some ''blinking''
      else if lastlineStripped = strip line then Some ''gliding''
      else scanLines lastline lastlineStripped rest)"

text \<open>
  \<open>printPattern\<close> returns its boolean together with what it printed to the
  standard output, one string per \<open>print\<close>. It does not assign to the state.
\<close>

definition printPattern :: "GameState \<Rightarrow> error + (bool \<times> string list)" where
  "printPattern g =
     (case py_get (lines g) (- 1) of
        Inl e \<Rightarrow> Inl e
      | Inr lastline \<Rightarrow>
          (case scanLines lastline (strip lastline) (py_slice_to (lines g) (- 1)) of
             Some name \<Rightarrow> Inr (True, [name])
           | None \<Rightarrow>
               if linesFilled g \<ge> MAX_ROUNDS then Inr (True, [''other''])
               else Inr (False, [])))"

subsection \<open>One line of the input file\<close>

text \<open>
  The loop \<open>while game.linesFilled() < MAX_ROUNDS\<close> of \<open>play\<close>, with its
  \<open>break\<close>. The result is the final state and everything printed.
\<close>

function playLoop :: "GameState \<Rightarrow> error + (GameState \<times> string list)" where
  "playLoop game =
     (if linesFilled game < MAX_ROUNDS then
        (case fillNextLine game of
           Inl e \<Rightarrow> Inl e
         | Inr game' \<Rightarrow>
             (case printPattern game' of
                Inl e \<Rightarrow> Inl e
              | Inr (ret, out) \<Rightarrow>
                  if ret then Inr (game', out)
                  else (case playLoop game' of
                          Inl e \<Rightarrow> Inl e
                        | Inr (final, out') \<Rightarrow> Inr (final, out @ out'))))
      else Inr (game, []))"
  by pat_completeness auto
termination
  by (relation "measure (\<lambda>g. MAX_ROUNDS - linesFilled g)")
     (auto simp: fillNextLine_def linesFilled_def split: sum.splits)

declare playLoop.simps [simp del]

text \<open>\<open>line.rstrip('\n')\<close>\<close>

definition rstrip_newline :: "string \<Rightarrow> string" where
  "rstrip_newline s = rev (dropWhile (\<lambda>c. c = CHR 0x0A) (rev s))"

text \<open>
  \<open>re.match("^[%s%s]+$" % (EMPTY, FILLED), line)\<close>, for a line that does not end
  in a newline: one character or more, each of them \<open>EMPTY\<close> or \<open>FILLED\<close>.
\<close>

definition expectedChars :: "string \<Rightarrow> bool" where
  "expectedChars line = (line \<noteq> [] \<and> list_all (\<lambda>c. c = EMPTY \<or> c = FILLED) line)"

text \<open>\<open>line.replace(EMPTY, " ")\<close>\<close>

definition replaceEmpty :: "string \<Rightarrow> string" where
  "replaceEmpty line = map (\<lambda>c. if c = EMPTY then CHR '' '' else c) line"

text \<open>
  The body of the loop of \<open>play\<close> for one line read from the file, from the
  removal of the newline on (an empty line is skipped and a line over the length
  limit is refused before that).
\<close>

definition playLine :: "string \<Rightarrow> error + (GameState \<times> string list)" where
  "playLine raw =
     (let line = rstrip_newline raw
      in if \<not> expectedChars line then Inl (SystemExit 1)
         else
           (let line = replaceEmpty line;
                line = padTrimLine line;
                game = init_GameState line
            in playLoop game))"

text \<open>What a run printed, and how many rows its history holds at the end.\<close>

definition printed :: "error + (GameState \<times> string list) \<Rightarrow> string list" where
  "printed r = (case r of Inl e \<Rightarrow> [] | Inr (g, out) \<Rightarrow> out)"

definition rowsAtEnd :: "error + (GameState \<times> string list) \<Rightarrow> nat" where
  "rowsAtEnd r = (case r of Inl e \<Rightarrow> 0 | Inr (g, out) \<Rightarrow> linesFilled g)"

subsection \<open>Measures of a line\<close>

text \<open>
  The number of whitespace characters a line starts with and the number it ends
  with: what \<open>lstrip\<close> and \<open>rstrip\<close> remove.
\<close>

definition lead :: "string \<Rightarrow> nat" where
  "lead line = length (takeWhile isspace line)"

definition trail :: "string \<Rightarrow> nat" where
  "trail line = length (takeWhile isspace (rev line))"

subsection \<open>The decision of the loop body\<close>

text \<open>
  Whether the loop of \<open>fillNextLine\<close> writes \<open>FILLED\<close> at index \<open>i\<close>, for an
  index inside the row above, and the effect of one iteration on the new row.
\<close>

definition fills :: "string \<Rightarrow> int \<Rightarrow> bool" where
  "fills lineAbove i =
     (let filled = count_list (getBlock i lineAbove) FILLED
      in if lineAbove ! nat i = CHR '' '' then filled = 2 \<or> filled = 3
         else filled = 3 \<or> filled = 5)"

definition fillStep :: "string \<Rightarrow> int \<Rightarrow> string \<Rightarrow> string" where
  "fillStep lineAbove i arr = (if fills lineAbove i then arr[nat i := FILLED] else arr)"

text \<open>
  The rows on which the loop stays inside the row above: a row of whitespace holds
  two characters or more, any other row starts with three whitespace characters or
  more and ends with exactly three.
\<close>

definition safeLine :: "string \<Rightarrow> bool" where
  "safeLine r =
     (if list_all isspace r then 2 \<le> length r else 3 \<le> lead r \<and> trail r = 3)"

subsection \<open>Rows and the padding invariant, as the specification words them\<close>

text \<open>
  A row is a sequence of cells, each Empty (a blank) or Filled. The padding
  invariant asks for three Empty cells or more before the first Filled cell and
  exactly three after the last one, or for a row that is entirely Empty. Outside
  its stored span a row is Empty. The derivation rule says which cells of the
  next row are Filled.
\<close>

definition isRow :: "string \<Rightarrow> bool" where
  "isRow line = list_all (\<lambda>c. c = CHR '' '' \<or> c = FILLED) line"

definition entirelyEmpty :: "string \<Rightarrow> bool" where
  "entirelyEmpty line = list_all (\<lambda>c. c = CHR '' '') line"

definition leadingEmpty :: "string \<Rightarrow> nat" where
  "leadingEmpty line = length (takeWhile (\<lambda>c. c = CHR '' '') line)"

definition trailingEmpty :: "string \<Rightarrow> nat" where
  "trailingEmpty line = length (takeWhile (\<lambda>c. c = CHR '' '') (rev line))"

definition paddingInvariant :: "string \<Rightarrow> bool" where
  "paddingInvariant line =
     (entirelyEmpty line \<or> (3 \<le> leadingEmpty line \<and> trailingEmpty line = 3))"

definition firstFilled :: "string \<Rightarrow> int" where
  "firstFilled line = int (length (takeWhile (\<lambda>c. c \<noteq> FILLED) line))"

definition lastFilled :: "string \<Rightarrow> int" where
  "lastFilled line =
     int (length line) - 1 - int (length (takeWhile (\<lambda>c. c \<noteq> FILLED) (rev line)))"

definition cellAt :: "string \<Rightarrow> int \<Rightarrow> char" where
  "cellAt line k = (if 0 \<le> k \<and> k < int (length line) then line ! nat k else CHR '' '')"

definition filledCount :: "string \<Rightarrow> int \<Rightarrow> nat" where
  "filledCount line i = count_list (map (\<lambda>d. cellAt line (i + d)) [- 2, - 1, 0, 1, 2]) FILLED"

definition derivationRule :: "string \<Rightarrow> int \<Rightarrow> bool" where
  "derivationRule line i =
     (firstFilled line - 1 \<le> i \<and> i \<le> lastFilled line + 1 \<and>
      ((cellAt line i = CHR '' '' \<and> (filledCount line i = 2 \<or> filledCount line i = 3)) \<or>
       (cellAt line i = FILLED \<and> (filledCount line i = 3 \<or> filledCount line i = 5))))"

subsection \<open>The classifier, as the specification words it\<close>

text \<open>
  For one earlier row the three checks are made in the order Vanishing, Blinking,
  Gliding. The classifier goes through the earlier rows in the order of the
  history and through the checks of each row in that order, and returns the label
  of the first check that succeeds; when none does, the label is Other once the
  history holds 100 rows.
\<close>

definition checks :: "string \<Rightarrow> string \<Rightarrow> (string \<times> bool) list" where
  "checks lastRow prior =
     [(''vanishing'', strip lastRow = ''''),
      (''blinking'', lastRow = prior),
      (''gliding'', strip lastRow = strip prior)]"

definition firstCheck :: "string \<Rightarrow> string \<Rightarrow> string option" where
  "firstCheck lastRow prior = map_option fst (find snd (checks lastRow prior))"

definition classify :: "string list \<Rightarrow> string option" where
  "classify history =
     (case find snd (concat (map (checks (last history)) (butlast history))) of
        Some (name, hit) \<Rightarrow> Some name
      | None \<Rightarrow> if 100 \<le> length history then Some ''other'' else None)"

subsection \<open>The states of a session\<close>

text \<open>
  What \<open>play\<close> keeps true of the game between two rounds: there is a last row,
  and the loop of \<open>fillNextLine\<close> stays inside it.
\<close>

definition sessionInv :: "GameState \<Rightarrow> bool" where
  "sessionInv g = (lines g \<noteq> [] \<and> safeLine (last (lines g)))"

section \<open>Lines and their padding\<close>

lemma isspace_blank [simp]: "isspace CHR '' ''"
  by (simp add: isspace_def)

lemma isspace_FILLED [simp]: "\<not> isspace FILLED"
  by (simp add: isspace_def FILLED_def)

lemma lead_le: "lead line \<le> length line"
  by (simp add: lead_def length_takeWhile_le)

lemma trail_le: "trail line \<le> length line"
  using length_takeWhile_le [of isspace "rev line"] by (simp add: trail_def)

lemma getFirstFilledIdx_lead: "getFirstFilledIdx line = int (lead line)"
proof -
  have "length (takeWhile isspace line) + length (dropWhile isspace line) = length line"
    by (metis length_append takeWhile_dropWhile_id)
  then show ?thesis
    by (simp add: getFirstFilledIdx_def lstrip_def lead_def)
qed

lemma getLastFilledIdx_trail:
  "getLastFilledIdx line = int (length line) - int (trail line) - 1"
proof -
  have "length (takeWhile isspace (rev line)) + length (dropWhile isspace (rev line)) = length line"
    by (metis length_append length_rev takeWhile_dropWhile_id)
  then show ?thesis
    by (simp add: getLastFilledIdx_def rstrip_def trail_def)
qed

lemma str_mul_blank: "str_mul '' '' k = replicate (nat k) CHR '' ''"
  by (induction "nat k" arbitrary: k) (auto simp: str_mul_def replicate_Suc [symmetric] simp del: replicate_Suc)

lemma takeWhile_all: "list_all P xs \<Longrightarrow> takeWhile P xs = xs"
  by (induction xs) auto

lemma takeWhile_length_all: "length (takeWhile P xs) = length xs \<longleftrightarrow> list_all P xs"
  by (induction xs) (auto dest: le_trans [OF _ length_takeWhile_le, of _ P])

lemma lead_all: "lead line = length line \<longleftrightarrow> list_all isspace line"
  by (simp add: lead_def takeWhile_length_all)

lemma trail_all: "trail line = length line \<longleftrightarrow> list_all isspace line"
  using takeWhile_length_all [of isspace "rev line"] by (simp add: trail_def list_all_iff)

lemma takeWhile_drop_within:
  "j \<le> length (takeWhile P ys) \<Longrightarrow> takeWhile P (drop j ys) = drop j (takeWhile P ys)"
proof (induction ys arbitrary: j)
  case Nil
  then show ?case by simp
next
  case (Cons y ys)
  then show ?case by (cases j) (auto split: if_splits)
qed

lemma takeWhile_take_beyond:
  "length (takeWhile P ys) < m \<Longrightarrow> takeWhile P (take m ys) = takeWhile P ys"
proof (induction ys arbitrary: m)
  case Nil
  then show ?case by simp
next
  case (Cons y ys)
  then show ?case by (cases m) (auto split: if_splits)
qed

lemma lead_trail_less:
  assumes "\<not> list_all isspace line"
  shows "lead line + trail line < length line"
proof -
  let ?a = "takeWhile isspace line" and ?b = "dropWhile isspace line"
  have split: "line = ?a @ ?b" by simp
  have ne: "?b \<noteq> []" using assms by (auto simp: list_all_iff dropWhile_eq_Nil_conv)
  then have hd: "\<not> isspace (hd ?b)" by (rule hd_dropWhile)
  have "hd ?b \<in> set (rev ?b)" using ne by simp
  then have "takeWhile isspace (rev ?b @ rev ?a) = takeWhile isspace (rev ?b)"
    using hd by (rule takeWhile_append1)
  moreover have "rev line = rev ?b @ rev ?a"
    by (metis rev_append split)
  ultimately have t: "trail line = length (takeWhile isspace (rev ?b))"
    by (simp add: trail_def)
  have "\<not> list_all isspace (rev ?b)"
    using hd list.set_sel(1) [OF ne] by (auto simp: list_all_iff)
  then have "length (takeWhile isspace (rev ?b)) \<noteq> length (rev ?b)"
    unfolding takeWhile_length_all .
  then have "length (takeWhile isspace (rev ?b)) < length ?b"
    using length_takeWhile_le [of isspace "rev ?b"] by simp
  moreover have "length line = length ?a + length ?b"
    by (metis length_append split)
  ultimately show ?thesis using t by (simp add: lead_def)
qed

lemma padTrimLine_eq:
  "padTrimLine line =
     replicate (3 - lead line) CHR '' '' @
     (if trail line \<le> 3 then line @ replicate (3 - trail line) CHR '' ''
      else take (length line - (trail line - 3)) line)"
proof (cases "trail line \<le> 3")
  case True
  then have "nat (3 - (int (length line) - (int (length line) - int (trail line) - 1) - 1)) = 3 - trail line"
    by simp
  moreover have "nat (3 - int (lead line)) = 3 - lead line" by simp
  ultimately show ?thesis
    using True
    by (simp add: padTrimLine_def Let_def getFirstFilledIdx_lead getLastFilledIdx_trail
        str_mul_blank)
next
  case False
  have le: "trail line \<le> length line" by (rule trail_le)
  have n: "nat (3 - int (lead line)) = 3 - lead line" by simp
  have sb: "slice_bound (3 - lead line + length line) (3 - int (trail line)) =
        (3 - lead line) + (length line - (trail line - 3))"
    using False le by (simp add: slice_bound_def nat_add_distrib nat_diff_distrib)
  show ?thesis
    using False le
    by (simp add: padTrimLine_def Let_def getFirstFilledIdx_lead getLastFilledIdx_trail
        str_mul_blank py_slice_to_def n sb)
qed

lemma length_padTrimLine:
  "length (padTrimLine line) = (3 - lead line) + (length line - trail line) + 3"
  using trail_le [of line] by (simp add: padTrimLine_eq)

lemma lead_blank_append: "lead (replicate k CHR '' '' @ xs) = k + lead xs"
  by (simp add: lead_def takeWhile_append)

lemma trail_append_blank: "trail (xs @ replicate k CHR '' '') = k + trail xs"
  by (simp add: trail_def takeWhile_append)

lemma lead_append_content: "\<not> list_all isspace xs \<Longrightarrow> lead (xs @ ys) = lead xs"
  by (auto simp: lead_def list_all_iff takeWhile_append1)

lemma trail_content_append: "\<not> list_all isspace ys \<Longrightarrow> trail (xs @ ys) = trail ys"
  by (auto simp: trail_def list_all_iff takeWhile_append1)

lemma lead_take: "lead xs < m \<Longrightarrow> lead (take m xs) = lead xs"
  by (simp add: lead_def takeWhile_take_beyond)

lemma trail_take:
  assumes "j \<le> trail xs"
  shows "trail (take (length xs - j) xs) = trail xs - j"
proof -
  have "j \<le> length xs" using assms trail_le [of xs] by simp
  then have "rev (take (length xs - j) xs) = drop j (rev xs)"
    by (simp add: rev_take)
  then show ?thesis
    using assms by (simp add: trail_def takeWhile_drop_within)
qed

lemma content_take:
  assumes "lead xs < m" and "\<not> list_all isspace xs"
  shows "\<not> list_all isspace (take m xs)"
proof -
  have "lead xs < length xs"
    using assms(2) lead_le [of xs] lead_all [of xs] by simp
  moreover have "lead (take m xs) = lead xs"
    using assms(1) by (rule lead_take)
  ultimately have "lead (take m xs) \<noteq> length (take m xs)"
    using assms(1) by simp
  then show ?thesis
    unfolding lead_all .
qed

lemma all_replicate_blank: "list_all isspace (replicate k CHR '' '')"
  by (simp add: list_all_iff)

lemma lead_padTrimLine:
  assumes "\<not> list_all isspace line"
  shows "lead (padTrimLine line) = max 3 (lead line)"
proof -
  have lt: "lead line + trail line < length line"
    using assms by (rule lead_trail_less)
  show ?thesis
  proof (cases "trail line \<le> 3")
    case True
    then show ?thesis
      using assms by (simp add: padTrimLine_eq lead_blank_append lead_append_content)
  next
    case False
    then have "lead line < length line - (trail line - 3)" using lt by simp
    then show ?thesis
      using False by (simp add: padTrimLine_eq lead_blank_append lead_take)
  qed
qed

lemma trail_padTrimLine:
  assumes "\<not> list_all isspace line"
  shows "trail (padTrimLine line) = 3"
proof -
  have lt: "lead line + trail line < length line"
    using assms by (rule lead_trail_less)
  show ?thesis
  proof (cases "trail line \<le> 3")
    case True
    have "\<not> list_all isspace (line @ replicate (3 - trail line) CHR '' '')"
      using assms by simp
    then show ?thesis
      using True by (simp add: padTrimLine_eq trail_content_append trail_append_blank)
  next
    case False
    then have "lead line < length line - (trail line - 3)" using lt by simp
    then have "\<not> list_all isspace (take (length line - (trail line - 3)) line)"
      using assms by (rule content_take)
    then have "trail (replicate (3 - lead line) CHR '' '' @ take (length line - (trail line - 3)) line)
        = trail (take (length line - (trail line - 3)) line)"
      by (rule trail_content_append)
    also have "\<dots> = trail line - (trail line - 3)"
      by (rule trail_take) simp
    finally show ?thesis
      using False by (simp add: padTrimLine_eq)
  qed
qed

lemma content_padTrimLine:
  assumes "\<not> list_all isspace line"
  shows "\<not> list_all isspace (padTrimLine line)"
proof -
  have "trail (padTrimLine line) = 3" using assms by (rule trail_padTrimLine)
  moreover have "3 < length (padTrimLine line)"
    using lead_trail_less [OF assms] unfolding length_padTrimLine by arith
  ultimately have "trail (padTrimLine line) \<noteq> length (padTrimLine line)" by simp
  then show ?thesis unfolding trail_all .
qed

lemma blank_padTrimLine:
  assumes "list_all isspace line"
  shows "list_all isspace (padTrimLine line) \<and> 3 \<le> length (padTrimLine line)"
proof -
  have "lead line = length line" "trail line = length line"
    using assms by (simp_all add: lead_all trail_all)
  then show ?thesis
    using assms by (auto simp: padTrimLine_eq list_all_iff dest: in_set_takeD)
qed

lemma padTrimLine_fixed:
  assumes "\<not> list_all isspace p" and "3 \<le> lead p" and "trail p = 3"
  shows "padTrimLine p = p"
  using assms by (simp add: padTrimLine_eq)

lemma padTrimLine_idem_content:
  assumes "\<not> list_all isspace line"
  shows "padTrimLine (padTrimLine line) = padTrimLine line"
proof (rule padTrimLine_fixed)
  show "\<not> list_all isspace (padTrimLine line)" using assms by (rule content_padTrimLine)
  show "3 \<le> lead (padTrimLine line)" using assms by (simp add: lead_padTrimLine)
  show "trail (padTrimLine line) = 3" using assms by (rule trail_padTrimLine)
qed

lemma FILLED_content: "FILLED \<in> set line \<Longrightarrow> \<not> list_all isspace line"
  using isspace_FILLED by (fastforce simp: list_all_iff)

section \<open>The loop of fillNextLine\<close>

lemma py_get_inrange: "0 \<le> i \<Longrightarrow> i < int (length xs) \<Longrightarrow> py_get xs i = Inr (xs ! nat i)"
  by (simp add: py_get_def)

lemma py_set_inrange: "0 \<le> i \<Longrightarrow> i < int (length xs) \<Longrightarrow> py_set xs i v = Inr (xs[nat i := v])"
  by (simp add: py_set_def)

lemma length_fillStep [simp]: "length (fillStep line i arr) = length arr"
  by (simp add: fillStep_def)

lemma length_fold_fillStep [simp]: "length (fold (fillStep line) idx arr) = length arr"
  by (induction idx arbitrary: arr) simp_all

lemma fillLoop_inrange:
  assumes "list_all (\<lambda>i. 0 \<le> i \<and> i < int (length line)) idx"
    and "length arr = length line"
  shows "fillLoop line idx arr = Inr (fold (fillStep line) idx arr)"
  using assms
proof (induction idx arbitrary: arr)
  case Nil
  then show ?case by simp
next
  case (Cons i idx)
  from Cons.prems have i: "0 \<le> i" "i < int (length line)" "i < int (length arr)"
    and rest: "list_all (\<lambda>i. 0 \<le> i \<and> i < int (length line)) idx"
    by simp_all
  have step: "fillLoop line idx (fillStep line i arr) = Inr (fold (fillStep line) idx (fillStep line i arr))"
    using rest Cons.prems(2) by (intro Cons.IH) simp_all
  have "fillLoop line (i # idx) arr = fillLoop line idx (fillStep line i arr)"
    using i by (simp add: py_get_inrange py_set_inrange fillStep_def fills_def Let_def)
  then show ?case
    using step by simp
qed

lemma nth_fold_fillStep:
  assumes "list_all (\<lambda>i. 0 \<le> i) idx" and "k < length arr"
  shows "fold (fillStep line) idx arr ! k =
         (if int k \<in> set idx \<and> fills line (int k) then FILLED else arr ! k)"
  using assms
proof (induction idx arbitrary: arr)
  case Nil
  then show ?case by simp
next
  case (Cons i idx)
  from Cons.prems have i: "0 \<le> i" and rest: "list_all (\<lambda>i. 0 \<le> i) idx" by simp_all
  have k: "k < length (fillStep line i arr)" using Cons.prems(2) by simp
  have "fillStep line i arr ! k = (if int k = i \<and> fills line (int k) then FILLED else arr ! k)"
    using i Cons.prems(2) by (auto simp: fillStep_def nth_list_update)
  then show ?case
    using Cons.IH [OF rest k] by auto
qed

lemma scanRange_eq:
  "scanRange line = [int (lead line) - 1 .. int (length line) - int (trail line)]"
  by (simp add: scanRange_def getFirstFilledIdx_lead getLastFilledIdx_trail)

lemma getBlock_inrange:
  assumes "2 \<le> i" and "i + 2 < int (length line)"
  shows "getBlock i line =
    [line ! nat (i - 2), line ! nat (i - 1), line ! nat i, line ! nat (i + 1), line ! nat (i + 2)]"
proof -
  define k where "k = nat (i - 2)"
  have i: "i = int k + 2" using assms(1) by (simp add: k_def)
  have n: "k + 5 \<le> length line" using assms(2) i by simp
  have "getBlock i line = drop k (take (k + 5) line)"
    using n by (simp add: getBlock_def py_slice_def slice_bound_def i nat_add_distrib add.commute)
  also have "\<dots> = take 5 (drop k line)"
    by (simp add: drop_take)
  also have "\<dots> = [line ! k, line ! (k + 1), line ! (k + 2), line ! (k + 3), line ! (k + 4)]"
  proof (rule nth_equalityI)
    show "length (take 5 (drop k line)) =
        length [line ! k, line ! (k + 1), line ! (k + 2), line ! (k + 3), line ! (k + 4)]"
      using n by simp
  next
    fix j
    assume "j < length (take 5 (drop k line))"
    then have "j < 5" by simp
    then consider "j = 0" | "j = 1" | "j = 2" | "j = 3" | "j = 4" by linarith
    then show "take 5 (drop k line) ! j =
        [line ! k, line ! (k + 1), line ! (k + 2), line ! (k + 3), line ! (k + 4)] ! j"
      using n by cases simp_all
  qed
  finally show ?thesis
    by (simp add: i nat_add_distrib add.commute)
qed

lemma scanRange_safe:
  assumes "safeLine r"
  shows "list_all (\<lambda>i. 2 \<le> i \<and> i + 2 < int (length r)) (scanRange r)"
proof (cases "list_all isspace r")
  case True
  then have "lead r = length r" "trail r = length r" "2 \<le> length r"
    using assms by (simp_all add: lead_all trail_all safeLine_def)
  then show ?thesis
    by (simp add: scanRange_eq list_all_iff)
next
  case False
  then have "3 \<le> lead r" "trail r = 3"
    using assms by (simp_all add: safeLine_def)
  then show ?thesis
    by (auto simp: scanRange_eq list_all_iff)
qed

lemma buildLine_safe:
  assumes "safeLine r"
  shows "buildLine r = Inr (fold (fillStep r) (scanRange r) (replicate (length r) CHR '' ''))"
proof -
  have "list_all (\<lambda>i. 0 \<le> i \<and> i < int (length r)) (scanRange r)"
    using scanRange_safe [OF assms] by (auto simp: list_all_iff)
  then show ?thesis
    unfolding buildLine_def by (rule fillLoop_inrange) simp
qed

lemma safeLine_padTrimLine: "safeLine (padTrimLine x)"
proof (cases "list_all isspace x")
  case True
  then show ?thesis
    using blank_padTrimLine [of x] by (simp add: safeLine_def)
next
  case False
  then show ?thesis
    by (simp add: safeLine_def content_padTrimLine lead_padTrimLine trail_padTrimLine)
qed

lemma blank_not_FILLED [simp]: "CHR '' '' \<noteq> FILLED" "FILLED \<noteq> CHR '' ''"
  by (simp_all add: FILLED_def)

lemma row_char:
  assumes "isRow line" and "x \<in> set line"
  shows "isspace x = (x = CHR '' '')" and "(x \<noteq> FILLED) = (x = CHR '' '')"
proof -
  have "x = CHR '' '' \<or> x = FILLED"
    using assms by (simp add: isRow_def list_all_iff)
  then show "isspace x = (x = CHR '' '')" and "(x \<noteq> FILLED) = (x = CHR '' '')"
    by (elim disjE; simp)+
qed

lemma row_takeWhile:
  assumes "isRow line"
  shows "takeWhile isspace line = takeWhile (\<lambda>c. c = CHR '' '') line"
    and "takeWhile (\<lambda>c. c \<noteq> FILLED) line = takeWhile (\<lambda>c. c = CHR '' '') line"
proof -
  show "takeWhile isspace line = takeWhile (\<lambda>c. c = CHR '' '') line"
    by (rule takeWhile_cong [OF refl]) (rule row_char(1) [OF assms])
  show "takeWhile (\<lambda>c. c \<noteq> FILLED) line = takeWhile (\<lambda>c. c = CHR '' '') line"
    by (rule takeWhile_cong [OF refl]) (rule row_char(2) [OF assms])
qed

lemma isRow_rev: "isRow (rev line) = isRow line"
  by (simp add: isRow_def list_all_iff)

lemma row_measures:
  assumes "isRow line"
  shows "lead line = leadingEmpty line" and "trail line = trailingEmpty line"
    and "firstFilled line = int (leadingEmpty line)"
    and "lastFilled line = int (length line) - 1 - int (trailingEmpty line)"
    and "list_all isspace line = entirelyEmpty line"
proof -
  have r: "isRow (rev line)" using assms by (simp add: isRow_rev)
  show "lead line = leadingEmpty line"
    by (simp add: lead_def leadingEmpty_def row_takeWhile(1) [OF assms])
  show "trail line = trailingEmpty line"
    by (simp add: trail_def trailingEmpty_def row_takeWhile(1) [OF r])
  show "firstFilled line = int (leadingEmpty line)"
    by (simp add: firstFilled_def leadingEmpty_def row_takeWhile(2) [OF assms])
  show "lastFilled line = int (length line) - 1 - int (trailingEmpty line)"
    by (simp add: lastFilled_def trailingEmpty_def row_takeWhile(2) [OF r])
  show "list_all isspace line = entirelyEmpty line"
    using row_char(1) [OF assms] by (auto simp: entirelyEmpty_def list_all_iff)
qed

lemma row_safeLine:
  assumes "isRow line" and "paddingInvariant line" and "2 \<le> length line"
  shows "safeLine line"
proof (cases "entirelyEmpty line")
  case True
  then show ?thesis
    using assms(3) by (simp add: safeLine_def row_measures(5) [OF assms(1)])
next
  case False
  then show ?thesis
    using assms(2)
    by (simp add: safeLine_def paddingInvariant_def row_measures [OF assms(1)])
qed

lemma getBlock_cells:
  assumes "2 \<le> i" and "i + 2 < int (length line)"
  shows "getBlock i line = map (\<lambda>d. cellAt line (i + d)) [- 2, - 1, 0, 1, 2]"
  using assms by (simp add: getBlock_inrange cellAt_def)

lemma fills_rule:
  assumes "isRow line" and "2 \<le> i" and "i + 2 < int (length line)"
  shows "fills line i =
     ((cellAt line i = CHR '' '' \<and> (filledCount line i = 2 \<or> filledCount line i = 3)) \<or>
      (cellAt line i = FILLED \<and> (filledCount line i = 3 \<or> filledCount line i = 5)))"
proof -
  have c: "cellAt line i = line ! nat i"
    using assms(2,3) by (simp add: cellAt_def)
  have "line ! nat i \<in> set line"
    using assms(2,3) by (intro nth_mem) simp
  then have "line ! nat i = CHR '' '' \<or> line ! nat i = FILLED"
    using assms(1) by (simp add: isRow_def list_all_iff)
  moreover have "count_list (getBlock i line) FILLED = filledCount line i"
    unfolding filledCount_def getBlock_cells [OF assms(2,3)] ..
  ultimately show ?thesis
    unfolding fills_def Let_def c by auto
qed

lemma row_filled_safe:
  assumes "isRow line" and "paddingInvariant line" and "FILLED \<in> set line"
  shows "safeLine line" and "\<not> list_all isspace line"
proof -
  show ne: "\<not> list_all isspace line" using assms(3) by (rule FILLED_content)
  then have "\<not> entirelyEmpty line" by (simp add: row_measures(5) [OF assms(1)])
  then show "safeLine line"
    using assms(2) ne
    by (simp add: safeLine_def paddingInvariant_def row_measures(1,2) [OF assms(1)])
qed

lemma py_get_last: "xs \<noteq> [] \<Longrightarrow> py_get xs (- 1) = Inr (last xs)"
  by (cases xs rule: rev_cases) (simp_all add: py_get_def)

lemma isRow_fold_fillStep:
  assumes "isRow arr"
  shows "isRow (fold (fillStep line) idx arr)"
  using assms
proof (induction idx arbitrary: arr)
  case Nil
  then show ?case by simp
next
  case (Cons i idx)
  have "isRow (fillStep line i arr)"
    using Cons.prems set_update_subset_insert [of arr "nat i" FILLED]
    by (auto simp: fillStep_def isRow_def list_all_iff)
  then show ?case by (simp add: Cons.IH)
qed

lemma set_padTrimLine: "set (padTrimLine x) \<subseteq> insert CHR '' '' (set x)"
proof (cases "trail x \<le> 3")
  case True
  have "set (replicate k CHR '' '') \<subseteq> {CHR '' ''}" for k by auto
  then show ?thesis
    unfolding padTrimLine_eq using True by (simp add: subset_insertI2 subset_iff)
next
  case False
  have "set (replicate k CHR '' '') \<subseteq> {CHR '' ''}" for k by auto
  moreover have "set (take m x) \<subseteq> set x" for m by (rule set_take_subset)
  ultimately show ?thesis
    unfolding padTrimLine_eq using False by (simp add: subset_iff)
qed

lemma isRow_padTrimLine:
  assumes "isRow x"
  shows "isRow (padTrimLine x)"
  using assms set_padTrimLine [of x] unfolding isRow_def list_all_iff by blast

lemma paddingInvariant_padTrimLine:
  assumes "isRow x"
  shows "paddingInvariant (padTrimLine x)"
proof -
  have p: "isRow (padTrimLine x)" using assms by (rule isRow_padTrimLine)
  show ?thesis
  proof (cases "list_all isspace x")
    case True
    then have "list_all isspace (padTrimLine x)" using blank_padTrimLine by blast
    then show ?thesis by (simp add: paddingInvariant_def row_measures(5) [OF p])
  next
    case False
    then have "lead (padTrimLine x) = max 3 (lead x)" "trail (padTrimLine x) = 3"
      by (simp_all add: lead_padTrimLine trail_padTrimLine)
    then show ?thesis
      by (simp add: paddingInvariant_def row_measures(1,2) [OF p, symmetric])
  qed
qed

lemma padTrimLine_margins:
  assumes "isRow x" and "FILLED \<in> set (padTrimLine x)"
  shows "leadingEmpty (padTrimLine x) = max 3 (leadingEmpty x) \<and> trailingEmpty (padTrimLine x) = 3"
proof -
  have p: "isRow (padTrimLine x)" using assms(1) by (rule isRow_padTrimLine)
  have "\<not> list_all isspace (padTrimLine x)" using assms(2) by (rule FILLED_content)
  then have "\<not> list_all isspace x" using blank_padTrimLine by blast
  then have "lead (padTrimLine x) = max 3 (lead x)" "trail (padTrimLine x) = 3"
    by (simp_all add: lead_padTrimLine trail_padTrimLine)
  then show ?thesis
    by (simp add: row_measures(1,2) [OF p, symmetric] row_measures(1) [OF assms(1), symmetric])
qed

lemma buildLine_row:
  assumes "isRow r" and "paddingInvariant r" and "r \<noteq> []"
  shows "\<exists>raw. buildLine r = Inr raw \<and> isRow raw"
proof (cases "2 \<le> length r")
  case True
  then have "safeLine r" using assms(1,2) by (intro row_safeLine)
  then have "buildLine r = Inr (fold (fillStep r) (scanRange r) (replicate (length r) CHR '' ''))"
    by (rule buildLine_safe)
  moreover have "isRow (replicate (length r) CHR '' '')"
    by (simp add: isRow_def list_all_iff)
  ultimately show ?thesis
    using isRow_fold_fillStep by blast
next
  case False
  then have "length r = Suc 0"
    using assms(3) by (cases r) (simp_all add: not_le)
  then obtain c where r: "r = [c]"
    by (auto simp: length_Suc_conv)
  have "c = CHR '' ''"
    using assms(1,2) unfolding r
    by (auto simp: isRow_def paddingInvariant_def entirelyEmpty_def leadingEmpty_def)
  then have "r = '' ''" using r by simp
  moreover have "buildLine '' '' = Inr '' ''" by code_simp
  moreover have "isRow '' ''" by code_simp
  ultimately show ?thesis by simp
qed

section \<open>The classifier and the session\<close>

lemma py_slice_to_butlast: "py_slice_to xs (- 1) = butlast xs"
  by (cases xs rule: rev_cases) (simp_all add: py_slice_to_def slice_bound_def)

lemma printPattern_eq:
  assumes "lines g \<noteq> []"
  shows "printPattern g =
     Inr (case scanLines (last (lines g)) (strip (last (lines g))) (butlast (lines g)) of
            Some name \<Rightarrow> (True, [name])
          | None \<Rightarrow> if MAX_ROUNDS \<le> linesFilled g then (True, [''other'']) else (False, []))"
  using assms by (simp add: printPattern_def py_get_last py_slice_to_butlast split: option.splits)

lemma scanLines_names:
  "scanLines l s ps = Some name \<Longrightarrow> name \<in> set [''vanishing'', ''blinking'', ''gliding'']"
  by (induction ps) (auto split: if_splits)

lemma printPattern_cases:
  assumes "lines g \<noteq> []" and "printPattern g = Inr (ret, out)"
  shows "(ret \<and> (\<exists>name. out = [name] \<and> name \<in> set [''vanishing'', ''blinking'', ''gliding'', ''other'']
              \<and> (name = ''other'' \<longrightarrow> MAX_ROUNDS \<le> linesFilled g)))
         \<or> (\<not> ret \<and> out = [] \<and> linesFilled g < MAX_ROUNDS)"
proof (cases "scanLines (last (lines g)) (strip (last (lines g))) (butlast (lines g))")
  case None
  then show ?thesis
    using assms by (auto simp: printPattern_eq split: if_splits)
next
  case (Some name)
  then have "name \<in> set [''vanishing'', ''blinking'', ''gliding'']" by (rule scanLines_names)
  then have "name \<in> set [''vanishing'', ''blinking'', ''gliding'', ''other'']" "name \<noteq> ''other''"
    by auto
  then show ?thesis
    using assms Some by (auto simp: printPattern_eq)
qed

lemma fillNextLine_inv:
  assumes "sessionInv g"
  shows "\<exists>new. buildLine (last (lines g)) = Inr new \<and>
           fillNextLine g = Inr (g\<lparr>lines := lines g @ [padTrimLine new]\<rparr>)"
proof -
  have "buildLine (last (lines g)) =
      Inr (fold (fillStep (last (lines g))) (scanRange (last (lines g)))
             (replicate (length (last (lines g))) CHR '' ''))"
    using assms by (intro buildLine_safe) (simp add: sessionInv_def)
  then show ?thesis
    using assms by (simp add: fillNextLine_def py_get_last sessionInv_def)
qed

lemma playLoop_result:
  assumes "sessionInv g" and "linesFilled g < MAX_ROUNDS"
  shows "\<exists>gf name. playLoop g = Inr (gf, [name]) \<and> prefix (lines g) (lines gf) \<and>
           linesFilled g < linesFilled gf \<and> linesFilled gf \<le> MAX_ROUNDS \<and>
           printPattern gf = Inr (True, [name]) \<and>
           name \<in> set [''vanishing'', ''blinking'', ''gliding'', ''other''] \<and>
           (name = ''other'' \<longrightarrow> linesFilled gf = MAX_ROUNDS)"
  using assms
proof (induction "MAX_ROUNDS - linesFilled g" arbitrary: g rule: less_induct)
  case less
  obtain new where f: "fillNextLine g = Inr (g\<lparr>lines := lines g @ [padTrimLine new]\<rparr>)"
    using fillNextLine_inv [OF less.prems(1)] by blast
  let ?g = "g\<lparr>lines := lines g @ [padTrimLine new]\<rparr>"
  have ne: "lines ?g \<noteq> []" by simp
  have inv: "sessionInv ?g" by (simp add: sessionInv_def safeLine_padTrimLine)
  have n: "linesFilled ?g = Suc (linesFilled g)" by (simp add: linesFilled_def)
  have pre: "prefix (lines g) (lines ?g)" by simp
  obtain ret out where p: "printPattern ?g = Inr (ret, out)"
    using printPattern_eq [OF ne] by (metis surj_pair)
  have unfold: "playLoop g =
      (if ret then Inr (?g, out)
       else (case playLoop ?g of Inl e \<Rightarrow> Inl e | Inr (final, out') \<Rightarrow> Inr (final, out @ out')))"
    using less.prems(2) f p by (subst playLoop.simps) simp
  show ?case
  proof (cases ret)
    case True
    then obtain name where "out = [name]"
      and "name \<in> set [''vanishing'', ''blinking'', ''gliding'', ''other'']"
      and "name = ''other'' \<longrightarrow> MAX_ROUNDS \<le> linesFilled ?g"
      using printPattern_cases [OF ne p] by blast
    then show ?thesis
      using True unfold p n pre less.prems(2)
      by (intro exI [of _ ?g] exI [of _ name]) auto
  next
    case False
    then have out: "out = []" and lt: "linesFilled ?g < MAX_ROUNDS"
      using printPattern_cases [OF ne p] by blast+
    have "MAX_ROUNDS - linesFilled ?g < MAX_ROUNDS - linesFilled g"
      using n less.prems(2) by simp
    then obtain gf name where r: "playLoop ?g = Inr (gf, [name])"
      and rest: "prefix (lines ?g) (lines gf)" "linesFilled ?g < linesFilled gf"
        "linesFilled gf \<le> MAX_ROUNDS" "printPattern gf = Inr (True, [name])"
        "name \<in> set [''vanishing'', ''blinking'', ''gliding'', ''other'']"
        "name = ''other'' \<longrightarrow> linesFilled gf = MAX_ROUNDS"
      using less.hyps [OF _ inv lt] by blast
    have "playLoop g = Inr (gf, [name])"
      using unfold False out r by simp
    moreover have "prefix (lines g) (lines gf)"
      using pre rest(1) by (rule prefix_order.trans)
    moreover have "linesFilled g < linesFilled gf"
      using n rest(2) by simp
    ultimately show ?thesis
      using rest by blast
  qed
qed

lemma playLine_valid:
  assumes "expectedChars (rstrip_newline raw)"
  shows "playLine raw =
     playLoop (init_GameState (padTrimLine (replaceEmpty (rstrip_newline raw))))"
  using assms by (simp add: playLine_def Let_def)

lemma sessionInv_init: "sessionInv (init_GameState (padTrimLine x))"
  by (simp add: sessionInv_def init_GameState_def safeLine_padTrimLine)

lemma linesFilled_init: "linesFilled (init_GameState x) = 1"
  by (simp add: linesFilled_def init_GameState_def)

lemma playLine_result:
  assumes "expectedChars (rstrip_newline raw)"
  shows "\<exists>gf name. playLine raw = Inr (gf, [name]) \<and>
           1 < linesFilled gf \<and> linesFilled gf \<le> MAX_ROUNDS \<and>
           printPattern gf = Inr (True, [name]) \<and>
           name \<in> set [''vanishing'', ''blinking'', ''gliding'', ''other''] \<and>
           (name = ''other'' \<longrightarrow> linesFilled gf = MAX_ROUNDS)"
proof -
  let ?g = "init_GameState (padTrimLine (replaceEmpty (rstrip_newline raw)))"
  have "linesFilled ?g < MAX_ROUNDS" by (simp add: linesFilled_init MAX_ROUNDS_def)
  then show ?thesis
    using playLoop_result [OF sessionInv_init, of "replaceEmpty (rstrip_newline raw)"]
    unfolding playLine_valid [OF assms] linesFilled_init by blast
qed

lemma fillNextLine_appends:
  assumes "fillNextLine g = Inr g'"
  shows "\<exists>row. lines g' = lines g @ [row]"
  using assms by (auto simp: fillNextLine_def split: sum.splits)

lemma playLoop_prefix:
  assumes "playLoop g = Inr (gf, out)"
  shows "prefix (lines g) (lines gf)"
  using assms
proof (induction "MAX_ROUNDS - linesFilled g" arbitrary: g out rule: less_induct)
  case less
  show ?case
  proof (cases "linesFilled g < MAX_ROUNDS")
    case False
    then have "gf = g" using less.prems by (subst (asm) playLoop.simps) simp
    then show ?thesis by simp
  next
    case True
    obtain g1 where f: "fillNextLine g = Inr g1"
      using less.prems True by (subst (asm) playLoop.simps) (simp split: sum.splits)
    obtain row where row: "lines g1 = lines g @ [row]"
      using fillNextLine_appends [OF f] by blast
    then have pre: "prefix (lines g) (lines g1)" by simp
    obtain ret out1 where p: "printPattern g1 = Inr (ret, out1)"
      using less.prems True f by (subst (asm) playLoop.simps) (auto split: sum.splits)
    show ?thesis
    proof (cases ret)
      case True
      then have "gf = g1"
        using less.prems \<open>linesFilled g < MAX_ROUNDS\<close> f p
        by (subst (asm) playLoop.simps) simp
      then show ?thesis using pre by simp
    next
      case False
      then obtain out2 where "playLoop g1 = Inr (gf, out2)"
        using less.prems \<open>linesFilled g < MAX_ROUNDS\<close> f p
        by (subst (asm) playLoop.simps) (auto split: sum.splits)
      moreover have "MAX_ROUNDS - linesFilled g1 < MAX_ROUNDS - linesFilled g"
        using True row by (simp add: linesFilled_def)
      ultimately have "prefix (lines g1) (lines gf)"
        using less.hyps by blast
      then show ?thesis using pre by (rule prefix_order.trans [rotated])
    qed
  qed
qed

lemma scanLines_find:
  "scanLines l (strip l) ps = map_option fst (find snd (concat (map (checks l) ps)))"
  by (induction ps) (simp_all add: checks_def)

lemma scanLines_first:
  assumes "j < length ps" and "\<forall>k<j. firstCheck l (ps ! k) = None"
    and "firstCheck l (ps ! j) = Some name"
  shows "scanLines l (strip l) ps = Some name"
  using assms
proof (induction ps arbitrary: j)
  case Nil
  then show ?case by simp
next
  case (Cons p ps)
  show ?case
  proof (cases j)
    case 0
    then have "firstCheck l p = Some name" using Cons.prems(3) by simp
    then show ?thesis
      by (auto simp: firstCheck_def checks_def split: if_splits)
  next
    case (Suc i)
    have none: "firstCheck l p = None" using Cons.prems(2) Suc by auto
    have "scanLines l (strip l) ps = Some name"
    proof (rule Cons.IH [of i])
      show "i < length ps" using Cons.prems(1) Suc by simp
      show "\<forall>k<i. firstCheck l (ps ! k) = None"
        using Cons.prems(2) Suc by auto
      show "firstCheck l (ps ! i) = Some name" using Cons.prems(3) Suc by simp
    qed
    moreover have "strip l \<noteq> ''''" "l \<noteq> p" "strip l \<noteq> strip p"
      using none by (auto simp: firstCheck_def checks_def split: if_splits)
    ultimately show ?thesis by simp
  qed
qed

lemma count_list_take_le: "count_list (take n xs) y \<le> count_list xs y"
proof -
  have "count_list (take n xs @ drop n xs) y = count_list (take n xs) y + count_list (drop n xs) y"
    by (rule count_list_append)
  then show ?thesis by simp
qed

lemma count_list_drop_le: "count_list (drop n xs) y \<le> count_list xs y"
proof -
  have "count_list (take n xs @ drop n xs) y = count_list (take n xs) y + count_list (drop n xs) y"
    by (rule count_list_append)
  then show ?thesis by simp
qed

lemma count_list_blanks: "count_list (replicate k CHR '' '') FILLED = 0"
  by (induction k) simp_all

lemma count_getBlock_le: "count_list (getBlock i line) FILLED \<le> count_list line FILLED"
  unfolding getBlock_def py_slice_def
  by (rule order_trans [OF count_list_drop_le count_list_take_le])

lemma fills_needs_two: "fills line i \<Longrightarrow> 2 \<le> count_list line FILLED"
  using count_getBlock_le [of i line] by (auto simp: fills_def Let_def split: if_splits)

lemma fold_fillStep_few:
  assumes "count_list line FILLED \<le> 1"
  shows "fold (fillStep line) idx arr = arr"
proof -
  have "fillStep line i a = a" for i a
    using assms fills_needs_two [of line i] by (auto simp: fillStep_def)
  then show ?thesis by (induction idx) simp_all
qed

lemma count_padTrimLine_le: "count_list (padTrimLine line) FILLED \<le> count_list line FILLED"
  unfolding padTrimLine_eq
  by (simp add: count_list_append count_list_blanks count_list_take_le)

lemma padTrimLine_blanks:
  assumes "3 \<le> k"
  shows "padTrimLine (replicate k CHR '' '') = ''   ''"
proof -
  let ?x = "replicate k CHR '' ''"
  have all: "list_all isspace ?x" by (rule all_replicate_blank)
  have l: "lead ?x = k" using all lead_all [of ?x] by simp
  have t: "trail ?x = k" using all trail_all [of ?x] by simp
  have d: "k - (k - 3) = 3" using assms by simp
  have "padTrimLine ?x =
      replicate (3 - k) CHR '' '' @
      (if k \<le> 3 then ?x @ replicate (3 - k) CHR '' '' else take (length ?x - (k - 3)) ?x)"
    by (simp only: padTrimLine_eq l t)
  also have "\<dots> = replicate 3 CHR '' ''"
  proof (cases "k = 3")
    case True
    then show ?thesis by simp
  next
    case False
    then have "\<not> k \<le> 3" using assms by simp
    then show ?thesis using assms by (simp add: d)
  qed
  finally show ?thesis by (simp add: numeral_3_eq_3)
qed

lemma strip_blanks: "strip ''   '' = ''''"
  by (simp add: strip_def lstrip_def rstrip_def)

lemma few_filled_vanishes:
  assumes "count_list line FILLED \<le> 1"
  shows "buildLine (padTrimLine line) = Inr (replicate (length (padTrimLine line)) CHR '' '')"
    and "playLoop (init_GameState (padTrimLine line)) =
           Inr (\<lparr>lines = [padTrimLine line, ''   '']\<rparr>, [''vanishing''])"
proof -
  let ?s = "padTrimLine line"
  have few: "count_list ?s FILLED \<le> 1"
    using assms count_padTrimLine_le [of line] by simp
  show b: "buildLine ?s = Inr (replicate (length ?s) CHR '' '')"
    using buildLine_safe [OF safeLine_padTrimLine, of line] by (simp add: fold_fillStep_few [OF few])
  have len: "3 \<le> length ?s" by (simp add: length_padTrimLine)
  have f: "fillNextLine (init_GameState ?s) = Inr \<lparr>lines = [?s, ''   '']\<rparr>"
    using b len by (simp add: fillNextLine_def init_GameState_def py_get_last padTrimLine_blanks)
  have p: "printPattern \<lparr>lines = [?s, ''   '']\<rparr> = Inr (True, [''vanishing''])"
    by (simp add: printPattern_eq strip_blanks)
  show "playLoop (init_GameState ?s) = Inr (\<lparr>lines = [?s, ''   '']\<rparr>, [''vanishing''])"
    using f p by (subst playLoop.simps) (simp add: linesFilled_init MAX_ROUNDS_def)
qed

lemma count_replaceEmpty: "count_list (replaceEmpty x) FILLED = count_list x FILLED"
  by (induction x) (simp_all add: replaceEmpty_def EMPTY_def FILLED_def)

lemma few_filled_playLine:
  assumes "expectedChars (rstrip_newline raw)" and "count_list (rstrip_newline raw) FILLED \<le> 1"
  shows "playLine raw =
      Inr (\<lparr>lines = [padTrimLine (replaceEmpty (rstrip_newline raw)), ''   '']\<rparr>, [''vanishing''])"
  unfolding playLine_valid [OF assms(1)]
  using assms(2) by (intro few_filled_vanishes(2)) (simp add: count_replaceEmpty)

lemma rstrip_newline_EMPTY: "rstrip_newline (replicate k EMPTY) = replicate k EMPTY"
  by (simp add: rstrip_newline_def EMPTY_def)

lemma count_list_EMPTY: "count_list (replicate k EMPTY) FILLED = 0"
  by (induction k) (simp_all add: EMPTY_def FILLED_def)

section \<open>The claims\<close>

text \<open>
  C1. For a row that satisfies the padding invariant and holds a Filled cell, the
  row \<open>fillNextLine\<close> builds, before it is padded again, has the length of the
  row above and is Filled at index \<open>k\<close> exactly when \<open>k\<close> lies between the index
  of the first Filled cell minus one and the index of the last Filled cell plus
  one and the five cells around \<open>k\<close> hold 2 or 3 Filled cells (cell above Empty)
  or 3 or 5 Filled cells (cell above Filled); every other cell is Empty.
\<close>

theorem derivation_rule:
  assumes "isRow line" and "paddingInvariant line" and "FILLED \<in> set line"
  shows "\<exists>new. buildLine line = Inr new \<and> length new = length line \<and>
           (\<forall>k<length line. new ! k = (if derivationRule line (int k) then FILLED else CHR '' ''))"
proof -
  let ?new = "fold (fillStep line) (scanRange line) (replicate (length line) CHR '' '')"
  have safe: "safeLine line" using assms by (rule row_filled_safe(1))
  have rng: "list_all (\<lambda>i. 2 \<le> i \<and> i + 2 < int (length line)) (scanRange line)"
    using safe by (rule scanRange_safe)
  then have pos: "list_all (\<lambda>i. 0 \<le> i) (scanRange line)"
    by (auto simp: list_all_iff)
  have "new_k = (if derivationRule line (int k) then FILLED else CHR '' '')"
    if k: "k < length line" and nk: "new_k = ?new ! k" for k new_k
  proof -
    have "?new ! k = (if int k \<in> set (scanRange line) \<and> fills line (int k) then FILLED
                      else replicate (length line) CHR '' '' ! k)"
      by (rule nth_fold_fillStep [OF pos]) (simp add: k)
    moreover have "(int k \<in> set (scanRange line) \<and> fills line (int k)) = derivationRule line (int k)"
    proof (cases "int k \<in> set (scanRange line)")
      case True
      then have "2 \<le> int k" "int k + 2 < int (length line)"
        using rng by (auto simp: list_all_iff)
      then have "fills line (int k) =
         ((cellAt line (int k) = CHR '' '' \<and> (filledCount line (int k) = 2 \<or> filledCount line (int k) = 3)) \<or>
          (cellAt line (int k) = FILLED \<and> (filledCount line (int k) = 3 \<or> filledCount line (int k) = 5)))"
        by (rule fills_rule [OF assms(1)])
      moreover have "firstFilled line - 1 \<le> int k \<and> int k \<le> lastFilled line + 1"
        using True by (simp add: scanRange_eq row_measures [OF assms(1)])
      ultimately show ?thesis
        using True by (simp add: derivationRule_def)
    next
      case False
      then have "\<not> (firstFilled line - 1 \<le> int k \<and> int k \<le> lastFilled line + 1)"
        by (simp add: scanRange_eq row_measures [OF assms(1)])
      then show ?thesis
        using False unfolding derivationRule_def by blast
    qed
    ultimately show ?thesis
      using k nk by simp
  qed
  then have "\<forall>k<length line. ?new ! k = (if derivationRule line (int k) then FILLED else CHR '' '')"
    by blast
  moreover have "buildLine line = Inr ?new" using safe by (rule buildLine_safe)
  moreover have "length ?new = length line" by simp
  ultimately show ?thesis by blast
qed

theorem derivation_rule_witness:
  "isRow ''   ##   '' \<and> paddingInvariant ''   ##   '' \<and> FILLED \<in> set ''   ##   '' \<and>
   derivationRule ''   ##   '' 2 \<and> \<not> derivationRule ''   ##   '' 3 \<and>
   buildLine ''   ##   '' = Inr ''  #  #  ''"
proof -
  have h: "isRow ''   ##   ''" "paddingInvariant ''   ##   ''" "FILLED \<in> set ''   ##   ''"
    by code_simp+
  have d: "derivationRule ''   ##   '' 2" "\<not> derivationRule ''   ##   '' 3"
    by code_simp+
  have b: "buildLine ''   ##   '' = Inr ''  #  #  ''" by code_simp
  obtain new where "buildLine ''   ##   '' = Inr new"
    and "\<forall>k<length ''   ##   ''.
           new ! k = (if derivationRule ''   ##   '' (int k) then FILLED else CHR '' '')"
    using derivation_rule [OF h] by blast
  then have "new = ''  #  #  ''" using b by simp
  then show ?thesis using h d b by simp
qed

text \<open>
  C2, as amended. For every row that is not the empty sequence and satisfies the
  padding invariant, \<open>fillNextLine\<close> succeeds and appends a row that satisfies the
  invariant; when the appended row holds a Filled cell, its leading Empty run is
  the larger of 3 and the leading run of the row just built (nothing is taken
  from it) and its trailing Empty run is exactly 3.
\<close>

theorem padding_invariant_preserved:
  assumes "isRow r" and "paddingInvariant r" and "r \<noteq> []"
    and "lines g \<noteq> []" and "last (lines g) = r"
  shows "\<exists>raw. buildLine r = Inr raw \<and>
           fillNextLine g = Inr (g\<lparr>lines := lines g @ [padTrimLine raw]\<rparr>) \<and>
           isRow (padTrimLine raw) \<and> paddingInvariant (padTrimLine raw) \<and>
           (FILLED \<in> set (padTrimLine raw) \<longrightarrow>
              leadingEmpty raw \<le> leadingEmpty (padTrimLine raw) \<and>
              leadingEmpty (padTrimLine raw) = max 3 (leadingEmpty raw) \<and>
              trailingEmpty (padTrimLine raw) = 3)"
proof -
  obtain raw where b: "buildLine r = Inr raw" and row: "isRow raw"
    using buildLine_row [OF assms(1-3)] by blast
  have "fillNextLine g = Inr (g\<lparr>lines := lines g @ [padTrimLine raw]\<rparr>)"
    using b assms(4,5) by (simp add: fillNextLine_def py_get_last)
  moreover have "isRow (padTrimLine raw)" using row by (rule isRow_padTrimLine)
  moreover have "paddingInvariant (padTrimLine raw)" using row by (rule paddingInvariant_padTrimLine)
  moreover have "leadingEmpty raw \<le> leadingEmpty (padTrimLine raw) \<and>
      leadingEmpty (padTrimLine raw) = max 3 (leadingEmpty raw) \<and>
      trailingEmpty (padTrimLine raw) = 3" if "FILLED \<in> set (padTrimLine raw)"
    using padTrimLine_margins [OF row that] by simp
  ultimately show ?thesis using b by blast
qed

theorem padding_invariant_preserved_witness:
  "isRow ''   ##   '' \<and> paddingInvariant ''   ##   '' \<and> ''   ##   '' \<noteq> [] \<and>
   buildLine ''   ##   '' = Inr ''  #  #  '' \<and>
   fillNextLine \<lparr>lines = [''   ##   '']\<rparr> = Inr \<lparr>lines = [''   ##   '', ''   #  #   '']\<rparr> \<and>
   paddingInvariant ''   #  #   ''"
proof -
  have h: "isRow ''   ##   ''" "paddingInvariant ''   ##   ''" "''   ##   '' \<noteq> []"
    by code_simp+
  have g: "lines \<lparr>lines = [''   ##   '']\<rparr> \<noteq> []" "last (lines \<lparr>lines = [''   ##   '']\<rparr>) = ''   ##   ''"
    by simp_all
  have b: "buildLine ''   ##   '' = Inr ''  #  #  ''" by code_simp
  have p: "padTrimLine ''  #  #  '' = ''   #  #   ''" by code_simp
  obtain raw where "buildLine ''   ##   '' = Inr raw"
    and f: "fillNextLine \<lparr>lines = [''   ##   '']\<rparr> =
           Inr (\<lparr>lines = [''   ##   '']\<rparr>\<lparr>lines := lines \<lparr>lines = [''   ##   '']\<rparr> @ [padTrimLine raw]\<rparr>)"
    and i: "paddingInvariant (padTrimLine raw)"
    using padding_invariant_preserved [OF h g] by blast
  then have "raw = ''  #  #  ''" using b by simp
  then show ?thesis using h b p f i by simp
qed

text \<open>
  The empty sequence is entirely Empty, so it satisfies the invariant as worded;
  on it the loop visits the indices \<open>-1\<close> and \<open>0\<close>, and reading the row above
  raises \<open>IndexError\<close>: no row is appended.
\<close>

theorem padding_invariant_empty_row_counterexample:
  "isRow '''' \<and> paddingInvariant '''' \<and> fillNextLine \<lparr>lines = ['''']\<rparr> = Inl IndexError"
  by code_simp

text \<open>
  C3, as amended. For every row of two cells or more that satisfies the padding
  invariant, each index \<open>i\<close> the loop visits has \<open>i - 2 \<ge> 0\<close> and
  \<open>i + 2 < length\<close>, \<open>getBlock\<close> returns five cells, the read of the row above
  and the write into a buffer of the row's length succeed, and the row is built
  without an error.
\<close>

theorem neighbour_lookups_in_bounds:
  assumes "isRow line" and "paddingInvariant line" and "2 \<le> length line"
  shows "(\<forall>i\<in>set (scanRange line).
            0 \<le> i - 2 \<and> i + 2 < int (length line) \<and> length (getBlock i line) = 5 \<and>
            py_get line i = Inr (line ! nat i) \<and>
            (\<forall>arr. length arr = length line \<longrightarrow> py_set arr i FILLED = Inr (arr[nat i := FILLED]))) \<and>
         (\<exists>new. buildLine line = Inr new \<and> length new = length line)"
proof -
  have safe: "safeLine line" using assms by (rule row_safeLine)
  have rng: "list_all (\<lambda>i. 2 \<le> i \<and> i + 2 < int (length line)) (scanRange line)"
    using safe by (rule scanRange_safe)
  have "0 \<le> i - 2 \<and> i + 2 < int (length line) \<and> length (getBlock i line) = 5 \<and>
        py_get line i = Inr (line ! nat i) \<and>
        (\<forall>arr. length arr = length line \<longrightarrow> py_set arr i FILLED = Inr (arr[nat i := FILLED]))"
    if "i \<in> set (scanRange line)" for i
  proof -
    have i: "2 \<le> i" "i + 2 < int (length line)"
      using rng that by (auto simp: list_all_iff)
    then show ?thesis
      by (simp add: getBlock_inrange py_get_inrange py_set_inrange)
  qed
  moreover have "buildLine line =
      Inr (fold (fillStep line) (scanRange line) (replicate (length line) CHR '' ''))"
    using safe by (rule buildLine_safe)
  ultimately show ?thesis by simp
qed

theorem neighbour_lookups_in_bounds_witness:
  "isRow ''   #   '' \<and> paddingInvariant ''   #   '' \<and> 2 \<le> length ''   #   '' \<and>
   2 \<in> set (scanRange ''   #   '') \<and> length (getBlock 2 ''   #   '') = 5"
proof -
  have h: "isRow ''   #   ''" "paddingInvariant ''   #   ''" "2 \<le> length ''   #   ''"
    by code_simp+
  have m: "2 \<in> set (scanRange ''   #   '')" by code_simp
  have "length (getBlock 2 ''   #   '') = 5"
    using neighbour_lookups_in_bounds [OF h] m by blast
  then show ?thesis using h m by simp
qed

text \<open>
  A row of one blank is entirely Empty; the loop visits index \<open>0\<close>, where
  \<open>i - 2\<close> is negative and the slice holds one cell.
\<close>

theorem neighbour_lookups_one_blank_counterexample:
  "isRow '' '' \<and> paddingInvariant '' '' \<and> 0 \<in> set (scanRange '' '') \<and>
   \<not> 0 \<le> (0::int) - 2 \<and> getBlock 0 '' '' = '' '' \<and> length (getBlock 0 '' '') \<noteq> 5"
  by code_simp

text \<open>
  C4. For every line that passes the check of its characters, the session ends
  and prints exactly one label, printed by \<open>printPattern\<close> on the final history.
  The round of the classification is the number of rows of the history minus one
  (round 0 is the starting row): it is at least 1 and it is below 100, or it is
  100 with the label \<open>other\<close>. The first alternative is the one that always
  holds: \<open>other\<close> is printed only when the history holds \<open>MAX_ROUNDS\<close> rows,
  that is at round 99.
\<close>

theorem round_cap:
  assumes "expectedChars (rstrip_newline raw)"
  shows "\<exists>gf name. playLine raw = Inr (gf, [name]) \<and>
           printPattern gf = Inr (True, [name]) \<and>
           1 \<le> linesFilled gf - 1 \<and>
           (linesFilled gf - 1 < 100 \<or> (name = ''other'' \<and> linesFilled gf - 1 = 100)) \<and>
           (name = ''other'' \<longrightarrow> linesFilled gf - 1 = 99)"
proof -
  obtain gf name where "playLine raw = Inr (gf, [name])" "1 < linesFilled gf"
    "linesFilled gf \<le> MAX_ROUNDS" "printPattern gf = Inr (True, [name])"
    "name = ''other'' \<longrightarrow> linesFilled gf = MAX_ROUNDS"
    using playLine_result [OF assms] by blast
  then show ?thesis
    by (intro exI [of _ gf] exI [of _ name]) (auto simp: MAX_ROUNDS_def)
qed

theorem round_cap_witness:
  "expectedChars (rstrip_newline ''##'') \<and>
   playLine ''##'' = Inr (\<lparr>lines = [''   ##   '', ''   #  #   '', ''    ##   '']\<rparr>, [''gliding'']) \<and>
   linesFilled \<lparr>lines = [''   ##   '', ''   #  #   '', ''    ##   '']\<rparr> - 1 < 100"
proof -
  have h: "expectedChars (rstrip_newline ''##'')" by code_simp
  have e: "playLine ''##'' =
      Inr (\<lparr>lines = [''   ##   '', ''   #  #   '', ''    ##   '']\<rparr>, [''gliding''])"
    by code_simp
  obtain gf name where "playLine ''##'' = Inr (gf, [name])"
    and "linesFilled gf - 1 < 100 \<or> (name = ''other'' \<and> linesFilled gf - 1 = 100)"
    using round_cap [OF h] by blast
  then have "linesFilled \<lparr>lines = [''   ##   '', ''   #  #   '', ''    ##   '']\<rparr> - 1 < 100"
    using e by auto
  then show ?thesis using h e by simp
qed

text \<open>
  C5. For every history of two rows or more, \<open>printPattern\<close> returns what the
  classifier worded from the specification returns: the label of the first
  successful check in the nested iteration over the earlier rows, in increasing
  index, and over the checks Vanishing, Blinking, Gliding of each row. Hence when
  some check succeeds for the earlier row of index \<open>j\<close> and none succeeds for a
  smaller index, the label printed is the one of the first successful check at
  \<open>j\<close>, whatever the later rows would match.
\<close>

theorem classifier_priority:
  assumes "2 \<le> length (lines g)"
  shows "printPattern g =
           Inr (case classify (lines g) of Some name \<Rightarrow> (True, [name]) | None \<Rightarrow> (False, [])) \<and>
         (\<forall>j name. j < length (lines g) - 1 \<and>
             (\<forall>k<j. firstCheck (last (lines g)) (lines g ! k) = None) \<and>
             firstCheck (last (lines g)) (lines g ! j) = Some name
             \<longrightarrow> printPattern g = Inr (True, [name]))"
proof -
  have ne: "lines g \<noteq> []" using assms by auto
  let ?l = "last (lines g)" and ?ps = "butlast (lines g)"
  have first: "printPattern g =
      Inr (case classify (lines g) of Some name \<Rightarrow> (True, [name]) | None \<Rightarrow> (False, []))"
    by (simp add: printPattern_eq [OF ne] scanLines_find classify_def linesFilled_def
        MAX_ROUNDS_def split: option.splits)
  have "printPattern g = Inr (True, [name])"
    if j: "j < length (lines g) - 1"
      and before: "\<forall>k<j. firstCheck ?l (lines g ! k) = None"
      and hit: "firstCheck ?l (lines g ! j) = Some name" for j name
  proof -
    have "scanLines ?l (strip ?l) ?ps = Some name"
    proof (rule scanLines_first [of j])
      show "j < length ?ps" using j by simp
      show "\<forall>k<j. firstCheck ?l (?ps ! k) = None"
        using before j by (simp add: nth_butlast)
      show "firstCheck ?l (?ps ! j) = Some name"
        using hit j by (simp add: nth_butlast)
    qed
    then show ?thesis by (simp add: printPattern_eq [OF ne])
  qed
  then show ?thesis using first by blast
qed

theorem classifier_priority_witness:
  "2 \<le> length (lines \<lparr>lines = [''    ##   '', ''   ##   '', ''   ##   '']\<rparr>) \<and>
   firstCheck ''   ##   '' ''    ##   '' = Some ''gliding'' \<and>
   firstCheck ''   ##   '' ''   ##   '' = Some ''blinking'' \<and>
   printPattern \<lparr>lines = [''    ##   '', ''   ##   '', ''   ##   '']\<rparr> = Inr (True, [''gliding''])"
proof -
  let ?g = "\<lparr>lines = [''    ##   '', ''   ##   '', ''   ##   '']\<rparr>"
  have h: "2 \<le> length (lines ?g)" by simp
  have c0: "firstCheck ''   ##   '' ''    ##   '' = Some ''gliding''" by code_simp
  have c1: "firstCheck ''   ##   '' ''   ##   '' = Some ''blinking''" by code_simp
  have "0 < length (lines ?g) - 1 \<and>
      (\<forall>k<0. firstCheck (last (lines ?g)) (lines ?g ! k) = None) \<and>
      firstCheck (last (lines ?g)) (lines ?g ! 0) = Some ''gliding''"
    using c0 by simp
  then have "printPattern ?g = Inr (True, [''gliding''])"
    using classifier_priority [OF h] by blast
  then show ?thesis using h c0 c1 by simp
qed

text \<open>
  C6, as amended. A starting line of Empty marks only is classified as Vanishing
  at the first round: the first derived row is all blank and is compared with the
  starting row, and the session ends with two rows in its history. Vanishing
  needs an earlier row in the history: on a history of one row \<open>printPattern\<close>
  prints nothing and returns false.
\<close>

theorem empty_start_vanishes:
  "playLine (replicate (Suc n) EMPTY) =
     Inr (\<lparr>lines = [padTrimLine (replicate (Suc n) CHR '' ''), ''   '']\<rparr>, [''vanishing'']) \<and>
   printPattern \<lparr>lines = [row]\<rparr> = Inr (False, [])"
proof -
  have e: "expectedChars (rstrip_newline (replicate (Suc n) EMPTY))"
    unfolding rstrip_newline_EMPTY by (simp add: expectedChars_def list_all_iff)
  have c: "count_list (rstrip_newline (replicate (Suc n) EMPTY)) FILLED \<le> 1"
    by (simp only: rstrip_newline_EMPTY count_list_EMPTY)
  have r: "replaceEmpty (rstrip_newline (replicate (Suc n) EMPTY)) = replicate (Suc n) CHR '' ''"
    by (simp only: rstrip_newline_EMPTY) (simp add: replaceEmpty_def)
  have "printPattern \<lparr>lines = [row]\<rparr> = Inr (False, [])"
    by (simp add: printPattern_eq linesFilled_def MAX_ROUNDS_def)
  then show ?thesis
    using few_filled_playLine [OF e c] unfolding r by simp
qed

theorem empty_start_vanishes_witness:
  "playLine ''...'' = Inr (\<lparr>lines = [''   '', ''   '']\<rparr>, [''vanishing'']) \<and>
   printPattern \<lparr>lines = [''   '']\<rparr> = Inr (False, [])"
proof -
  have r: "replicate (Suc 2) EMPTY = ''...''" by (simp add: EMPTY_def numeral_2_eq_2)
  have p: "padTrimLine (replicate (Suc 2) CHR '' '') = ''   ''" by code_simp
  show ?thesis
    using empty_start_vanishes [of 2 "''   ''"] unfolding r p by simp
qed

text \<open>
  The starting line \<open>...\<close> is classified as Vanishing with two rows in the
  history, not as Other after 100 rounds.
\<close>

theorem empty_start_not_other_counterexample:
  "printed (playLine ''...'') = [''vanishing''] \<and> rowsAtEnd (playLine ''...'') = 2 \<and>
   printed (playLine ''...'') \<noteq> [''other'']"
  by code_simp

text \<open>
  C7. For a starting row with exactly one Filled cell, once \<open>padTrimLine\<close> has
  been applied, the row \<open>fillNextLine\<close> builds is entirely blank, the row it
  appends is three blanks, and the session prints \<open>vanishing\<close>.
\<close>

theorem single_filled_vanishes:
  assumes "count_list line FILLED = 1"
  shows "buildLine (padTrimLine line) = Inr (replicate (length (padTrimLine line)) CHR '' '') \<and>
         fillNextLine (init_GameState (padTrimLine line)) = Inr \<lparr>lines = [padTrimLine line, ''   '']\<rparr> \<and>
         playLoop (init_GameState (padTrimLine line)) =
           Inr (\<lparr>lines = [padTrimLine line, ''   '']\<rparr>, [''vanishing''])"
proof -
  have few: "count_list line FILLED \<le> 1" using assms by simp
  have b: "buildLine (padTrimLine line) = Inr (replicate (length (padTrimLine line)) CHR '' '')"
    using few by (rule few_filled_vanishes(1))
  have "3 \<le> length (padTrimLine line)" by (simp add: length_padTrimLine)
  then have "fillNextLine (init_GameState (padTrimLine line)) =
      Inr \<lparr>lines = [padTrimLine line, ''   '']\<rparr>"
    using b by (simp add: fillNextLine_def init_GameState_def py_get_last padTrimLine_blanks)
  then show ?thesis
    using b few_filled_vanishes(2) [OF few] by simp
qed

theorem single_filled_vanishes_witness:
  "count_list ''..#.'' FILLED = 1 \<and> count_list ''  # '' FILLED = 1 \<and>
   padTrimLine ''  # '' = ''   #   '' \<and> buildLine ''   #   '' = Inr ''       '' \<and>
   playLoop (init_GameState ''   #   '') = Inr (\<lparr>lines = [''   #   '', ''   '']\<rparr>, [''vanishing''])"
proof -
  have h: "count_list ''  # '' FILLED = 1" by code_simp
  have h': "count_list ''..#.'' FILLED = 1" by code_simp
  have p: "padTrimLine ''  # '' = ''   #   ''" by code_simp
  have "buildLine (padTrimLine ''  # '') = Inr (replicate (length (padTrimLine ''  # '')) CHR '' '') \<and>
      playLoop (init_GameState (padTrimLine ''  # '')) =
        Inr (\<lparr>lines = [padTrimLine ''  # '', ''   '']\<rparr>, [''vanishing''])"
    using single_filled_vanishes [OF h] by blast
  then show ?thesis
    unfolding p using h h' p by (simp add: numeral_eq_Suc)
qed

text \<open>
  C8. \<open>fillNextLine\<close> changes the state only by appending one row: the history
  has one row more and its earlier rows are the same, in the same order. Over a
  whole session the starting history is a prefix of the final one.
  \<open>printPattern\<close> returns a boolean and the text printed, and no state: it leaves
  the history as it is.
\<close>

theorem history_frame:
  "(fillNextLine g = Inr g' \<longrightarrow>
      length (lines g') = Suc (length (lines g)) \<and> take (length (lines g)) (lines g') = lines g) \<and>
   (playLoop g = Inr (gf, out) \<longrightarrow> prefix (lines g) (lines gf))"
  using fillNextLine_appends [of g g'] playLoop_prefix [of g gf out] by auto

theorem history_frame_witness:
  "fillNextLine \<lparr>lines = [''   ##   '']\<rparr> = Inr \<lparr>lines = [''   ##   '', ''   #  #   '']\<rparr> \<and>
   length (lines \<lparr>lines = [''   ##   '', ''   #  #   '']\<rparr>) = Suc (length (lines \<lparr>lines = [''   ##   '']\<rparr>)) \<and>
   take 1 [''   ##   '', ''   #  #   ''] = [''   ##   '']"
proof -
  have f: "fillNextLine \<lparr>lines = [''   ##   '']\<rparr> = Inr \<lparr>lines = [''   ##   '', ''   #  #   '']\<rparr>"
    by code_simp
  have "length (lines \<lparr>lines = [''   ##   '', ''   #  #   '']\<rparr>) = Suc (length (lines \<lparr>lines = [''   ##   '']\<rparr>)) \<and>
      take (length (lines \<lparr>lines = [''   ##   '']\<rparr>)) (lines \<lparr>lines = [''   ##   '', ''   #  #   '']\<rparr>)
        = lines \<lparr>lines = [''   ##   '']\<rparr>"
    using history_frame [of "\<lparr>lines = [''   ##   '']\<rparr>" "\<lparr>lines = [''   ##   '', ''   #  #   '']\<rparr>"] f
    by blast
  then show ?thesis using f by simp
qed

text \<open>
  C9, as amended. For every line that passes the check of its characters, the
  session prints exactly one label, and it is one of the four strings
  \<open>vanishing\<close>, \<open>blinking\<close>, \<open>gliding\<close>, \<open>other\<close>, in lower case.
\<close>

theorem label_rendering:
  assumes "expectedChars (rstrip_newline raw)"
  shows "\<exists>name. printed (playLine raw) = [name] \<and>
           name \<in> set [''vanishing'', ''blinking'', ''gliding'', ''other'']"
proof -
  obtain gf name where "playLine raw = Inr (gf, [name])"
    "name \<in> set [''vanishing'', ''blinking'', ''gliding'', ''other'']"
    using playLine_result [OF assms] by blast
  then show ?thesis
    by (intro exI [of _ name]) (simp add: printed_def)
qed

theorem label_rendering_witness:
  "expectedChars (rstrip_newline ''#..#'') \<and> printed (playLine ''#..#'') = [''blinking''] \<and>
   ''blinking'' \<in> set [''vanishing'', ''blinking'', ''gliding'', ''other'']"
proof -
  have h: "expectedChars (rstrip_newline ''#..#'')" by code_simp
  have e: "printed (playLine ''#..#'') = [''blinking'']" by code_simp
  obtain name where "printed (playLine ''#..#'') = [name]"
    and "name \<in> set [''vanishing'', ''blinking'', ''gliding'', ''other'']"
    using label_rendering [OF h] by blast
  then have "''blinking'' \<in> set [''vanishing'', ''blinking'', ''gliding'', ''other'']"
    using e by simp
  then show ?thesis using h e by blast
qed

text \<open>
  The label printed for the starting line \<open>#\<close> is \<open>vanishing\<close>, which is
  none of the capitalised names.
\<close>

theorem label_rendering_lowercase_counterexample:
  "printed (playLine ''#'') = [''vanishing''] \<and>
   ''vanishing'' \<notin> set [''Vanishing'', ''Blinking'', ''Gliding'', ''Other'']"
  by code_simp

text \<open>
  C10. \<open>padTrimLine\<close> applied twice to a line that holds a filled square gives
  what one application gives, and for any line at all the result has three
  characters or more: a line without a filled square is kept as a string of
  blanks, never as the empty string.
\<close>

theorem padTrimLine_idempotent_nondegenerate:
  "(FILLED \<in> set line \<longrightarrow> padTrimLine (padTrimLine line) = padTrimLine line)
   \<and> 3 \<le> length (padTrimLine other) \<and> padTrimLine other \<noteq> ''''"
proof -
  have "3 \<le> length (padTrimLine other)"
    by (simp add: length_padTrimLine)
  moreover from this have "padTrimLine other \<noteq> ''''" by auto
  ultimately show ?thesis
    by (auto dest: FILLED_content padTrimLine_idem_content)
qed

theorem padTrimLine_idempotent_nondegenerate_witness:
  "FILLED \<in> set ''  #    '' \<and> padTrimLine (padTrimLine ''  #    '') = ''   #   ''
   \<and> padTrimLine ''  #    '' = ''   #   '' \<and> padTrimLine '' '' = ''     ''"
proof -
  have f: "FILLED \<in> set ''  #    ''" by (simp add: FILLED_def)
  have p: "padTrimLine ''  #    '' = ''   #   ''" by code_simp
  have q: "padTrimLine '' '' = ''     ''" by code_simp
  have "padTrimLine (padTrimLine ''  #    '') = padTrimLine ''  #    ''"
    using padTrimLine_idempotent_nondegenerate [of "''  #    ''" "'' ''"] f by blast
  then show ?thesis
    using f p q by simp
qed

end
